theory Spec2Isabelle
  imports Main "HOL-Library.Word"
begin

section \<open>The MyBatis mapper parser (backend/plugin/parser/mybatis)\<close>

text \<open>
  \<^verbatim>\<open>Parser.Parse\<close> reads the tokens of an \<^verbatim>\<open>encoding/xml\<close> decoder one by one and
  builds the tree of the mapper without recursion, on two stacks. The decoder belongs to
  the Go standard library: it is represented by the tokens it delivers, followed by the
  error with which \<^verbatim>\<open>Token()\<close> ends the stream. Strings and byte slices are lists of
  8-bit characters.
\<close>

subsection \<open>Tokens of encoding/xml\<close>

record xml_Name =
  Space :: string
  Local :: string

record xml_Attr =
  AttrName :: xml_Name
  Value :: string

record xml_StartElement =
  Name :: xml_Name
  Attr :: "xml_Attr list"

datatype Token =
    StartElement xml_StartElement
  | EndElement xml_Name
  | CharData string
  | Comment string
  | ProcInst string string
  | Directive string

text \<open>What \<^verbatim>\<open>Token()\<close> returns instead of a token: \<^verbatim>\<open>io.EOF\<close>, or any other error
  (given by its message; for an \<^verbatim>\<open>xml.SyntaxError\<close>, by its \<^verbatim>\<open>Msg\<close>).\<close>

datatype TokenError = EOF | SyntaxError string

subsection \<open>The tree (package ast)\<close>

datatype Style = Bind | Substitution

datatype Segment = Literal string | Placeholder string Style

datatype ScanError = UnterminatedPlaceholder

text \<open>
  Modelled from the spec: the node types of package \<^verbatim>\<open>ast\<close>, whose source is not part of
  the files at hand. One variant per node kind; every kind but \<open>Data\<close> owns an ordered
  sequence of children, a \<open>Data\<close> node owns its bytes and its segments. The nodes made
  from a start element keep that element (attributes, and the operation of a query).

  Go nodes are objects behind pointers, and \<^verbatim>\<open>AddChild\<close> mutates its receiver. An object
  under construction is referenced from one slot of the node stack only, and is no longer
  written once it has been attached to its parent, so a slot of the node stack holds the
  current value of its object.
\<close>

datatype NodeKind =
    RootNode
  | MapperNode xml_StartElement
  | QueryNode xml_StartElement
  | IfNode xml_StartElement
  | ChooseNode xml_StartElement
  | WhenNode xml_StartElement
  | OtherwiseNode xml_StartElement
  | EmptyNode

datatype Node =
    Elem NodeKind "Node list"
  | DataNode string "Segment list"

text \<open>Modelled from the spec: the type test \<^verbatim>\<open>popNode.(*ast.EmptyNode)\<close>.\<close>

fun isEmptyNode :: "Node \<Rightarrow> bool" where
  "isEmptyNode (Elem EmptyNode cs) = True"
| "isEmptyNode n = False"

text \<open>Modelled from the spec: \<^verbatim>\<open>AddChild\<close> of package \<^verbatim>\<open>ast\<close>, which appends the child
  as the last one. A \<open>Data\<close> node is a leaf and takes no child.\<close>

fun AddChild :: "Node \<Rightarrow> Node \<Rightarrow> Node" where
  "AddChild (Elem k cs) c = Elem k (cs @ [c])"
| "AddChild (DataNode bs segs) c = DataNode bs segs"

fun children :: "Node \<Rightarrow> Node list" where
  "children (Elem k cs) = cs"
| "children (DataNode bs segs) = []"

subsection \<open>The data-segment tokenizer\<close>

text \<open>
  Modelled from the spec: \<^verbatim>\<open>DataNode.Scan\<close> of package \<^verbatim>\<open>ast\<close> (section 4.2 of the
  specification). One pass from left to right; \<open>mode\<close> is \<open>None\<close> in plain text and
  \<open>Some st\<close> inside a placeholder of style \<open>st\<close>; \<open>acc\<close> is the run of bytes read since
  the last segment.
\<close>

definition openerStyle :: "char \<Rightarrow> Style option" where
  "openerStyle c =
     (if c = CHR ''#'' then Some Bind
      else if c = CHR ''$'' then Some Substitution
      else None)"

fun literal :: "string \<Rightarrow> Segment list" where
  "literal [] = []"
| "literal acc = [Literal acc]"

fun emit :: "Segment list \<Rightarrow> ScanError + Segment list \<Rightarrow> ScanError + Segment list" where
  "emit segs (Inl e) = Inl e"
| "emit segs (Inr rest) = Inr (segs @ rest)"

fun scanFrom :: "Style option \<Rightarrow> string \<Rightarrow> string \<Rightarrow> ScanError + Segment list" where
  "scanFrom None acc [] = Inr (literal acc)"
| "scanFrom (Some st) acc [] = Inl UnterminatedPlaceholder"
| "scanFrom (Some st) acc (c # cs) =
     (if c = CHR ''}'' then emit [Placeholder acc st] (scanFrom None [] cs)
      else scanFrom (Some st) (acc @ [c]) cs)"
| "scanFrom None acc [c] = Inr (literal (acc @ [c]))"
| "scanFrom None acc (c # d # cs) =
     (case openerStyle c of
        Some st \<Rightarrow>
          (if d = CHR ''{'' then emit (literal acc) (scanFrom (Some st) [] cs)
           else scanFrom None (acc @ [c]) (d # cs))
      | None \<Rightarrow> scanFrom None (acc @ [c]) (d # cs))"

definition Scan :: "string \<Rightarrow> ScanError + Segment list" where
  "Scan bs = scanFrom None [] bs"

text \<open>Modelled from the spec: \<^verbatim>\<open>NewDataNode\<close> followed by \<^verbatim>\<open>Scan\<close>: the \<open>Data\<close> node of
  the bytes with their segments, or the error of the tokenizer.\<close>

definition scanDataNode :: "string \<Rightarrow> ScanError + Node" where
  "scanDataNode bs = (case Scan bs of Inl e \<Rightarrow> Inl e | Inr segs \<Rightarrow> Inr (DataNode bs segs))"

subsection \<open>strings.TrimSpace\<close>

text \<open>
  \<^verbatim>\<open>strings.TrimSpace\<close> removes the leading and the trailing white space of a string, white
  space as Unicode defines it, the string read as UTF-8: the six ASCII characters tab,
  newline, vertical tab, form feed, carriage return and space, and the code points U+0085,
  U+00A0, U+1680, U+2000 to U+200A, U+2028, U+2029, U+202F, U+205F and U+3000, listed
  here by their encodings. A byte that starts none of them, a malformed sequence included,
  is no white space.
\<close>

definition spaceSeqs :: "string list" where
  "spaceSeqs =
     [[CHR 0x09], [CHR 0x0A], [CHR 0x0B], [CHR 0x0C], [CHR 0x0D], [CHR 0x20],
      [CHR 0xC2, CHR 0x85], [CHR 0xC2, CHR 0xA0],
      [CHR 0xE1, CHR 0x9A, CHR 0x80],
      [CHR 0xE2, CHR 0x80, CHR 0x80], [CHR 0xE2, CHR 0x80, CHR 0x81],
      [CHR 0xE2, CHR 0x80, CHR 0x82], [CHR 0xE2, CHR 0x80, CHR 0x83],
      [CHR 0xE2, CHR 0x80, CHR 0x84], [CHR 0xE2, CHR 0x80, CHR 0x85],
      [CHR 0xE2, CHR 0x80, CHR 0x86], [CHR 0xE2, CHR 0x80, CHR 0x87],
      [CHR 0xE2, CHR 0x80, CHR 0x88], [CHR 0xE2, CHR 0x80, CHR 0x89],
      [CHR 0xE2, CHR 0x80, CHR 0x8A],
      [CHR 0xE2, CHR 0x80, CHR 0xA8], [CHR 0xE2, CHR 0x80, CHR 0xA9],
      [CHR 0xE2, CHR 0x80, CHR 0xAF],
      [CHR 0xE2, CHR 0x81, CHR 0x9F],
      [CHR 0xE3, CHR 0x80, CHR 0x80]]"

fun stripPrefix :: "string \<Rightarrow> string \<Rightarrow> string option" where
  "stripPrefix [] s = Some s"
| "stripPrefix (c # cs) [] = None"
| "stripPrefix (c # cs) (x # xs) = (if c = x then stripPrefix cs xs else None)"

text \<open>The rest of \<open>s\<close> after the first of the sequences that \<open>s\<close> starts with.\<close>

fun stripOne :: "string list \<Rightarrow> string \<Rightarrow> string option" where
  "stripOne [] s = None"
| "stripOne (q # qs) s =
     (if q = [] then stripOne qs s
      else case stripPrefix q s of Some r \<Rightarrow> Some r | None \<Rightarrow> stripOne qs s)"

function trimLeft :: "string list \<Rightarrow> string \<Rightarrow> string" where
  "trimLeft qs s = (case stripOne qs s of None \<Rightarrow> s | Some r \<Rightarrow> trimLeft qs r)"
  by pat_completeness auto
termination
proof (relation "measure (\<lambda>(qs, s). length s)")
  show "wf (measure (\<lambda>(qs, s). length s))" by simp
next
  fix qs :: "string list" and s r :: string
  assume found: "stripOne qs s = Some r"
  have pre: "\<And>q t u. stripPrefix q t = Some u \<Longrightarrow> length t = length q + length u"
  proof -
    fix q t u :: string
    show "stripPrefix q t = Some u \<Longrightarrow> length t = length q + length u"
      by (induction q t rule: stripPrefix.induct) (auto split: if_splits)
  qed
  have "stripOne qs s = Some r \<Longrightarrow> length r < length s"
    by (induction qs s rule: stripOne.induct)
       (auto split: if_splits option.splits dest: pre)
  with found show "((qs, r), (qs, s)) \<in> measure (\<lambda>(qs, s). length s)" by simp
qed

definition TrimSpace :: "string \<Rightarrow> string" where
  "TrimSpace s = rev (trimLeft (map rev spaceSeqs) (rev (trimLeft spaceSeqs s)))"

subsection \<open>The parser\<close>

text \<open>
  The struct \<^verbatim>\<open>Parser\<close>. Its decoder \<^verbatim>\<open>d\<close> is the token stream, passed on its own;
  \<^verbatim>\<open>uint\<close> is taken at 64 bits.
\<close>

record Parser =
  buf :: "32 word list"
  cursor :: "64 word"
  currentLine :: "64 word"

text \<open>The local variables of \<^verbatim>\<open>Parse\<close>. A Go slice grows at its end: the top of a stack
  is the last element of the list.\<close>

record Stacks =
  startElementStack :: "xml_StartElement list"
  nodeStack :: "Node list"

text \<open>
  The errors that \<^verbatim>\<open>Parse\<close> returns, each with the values that its message prints:
  \<^item> \<open>UnterminatedElement n\<close>: \<^verbatim>\<open>expected to read the end element of %q, but got EOF\<close>;
  \<^item> \<open>MalformedXml m\<close>: \<^verbatim>\<open>failed to get token from xml decoder\<close>, wrapping the error \<open>m\<close>
    of the decoder;
  \<^item> \<open>UnexpectedEndElement n\<close>: \<^verbatim>\<open>unexpected end element %q\<close>;
  \<^item> \<open>TagMismatch expected actual\<close>:
    \<^verbatim>\<open>expected to read the name of end element is %q, but got %q\<close>;
  \<^item> \<open>DataScanError e\<close>: \<^verbatim>\<open>cannot parse data node\<close>, wrapping the error of the tokenizer;
  \<^item> \<open>NodeStackEmpty\<close>:
    \<^verbatim>\<open>try to append data node to parent node, but node stack is empty\<close>.

  Two more outcomes make the model total. \<open>IndexOutOfRange\<close> is the run-time panic of Go
  at \<^verbatim>\<open>nodeStack[len(nodeStack)-1]\<close> and \<^verbatim>\<open>nodeStack[len(nodeStack)-2]\<close> when the slice
  is too short. \<open>RootLost\<close> is no outcome of the Go code: the variable \<^verbatim>\<open>root\<close> and slot 0
  of the node stack are the same object, the model reads it from slot 0, and \<open>RootLost\<close>
  marks the end of input in a state where that slot does not exist. Neither is the result
  of any run from the initial state (lemma \<open>Parse_total\<close>).
\<close>

datatype error =
    UnterminatedElement string
  | MalformedXml string
  | UnexpectedEndElement string
  | TagMismatch string string
  | DataScanError ScanError
  | NodeStackEmpty
  | IndexOutOfRange
  | RootLost

definition newNodeByStartElement :: "xml_StartElement \<Rightarrow> Node" where
  "newNodeByStartElement startElement =
     (let n = Local (Name startElement) in
      if n = ''mapper'' then Elem (MapperNode startElement) []
      else if n = ''select'' \<or> n = ''update'' \<or> n = ''insert'' \<or> n = ''delete''
        then Elem (QueryNode startElement) []
      else if n = ''if'' then Elem (IfNode startElement) []
      else if n = ''choose'' then Elem (ChooseNode startElement) []
      else if n = ''when'' then Elem (WhenNode startElement) []
      else if n = ''otherwise'' then Elem (OtherwiseNode startElement) []
      else Elem EmptyNode [])"

text \<open>The loop \<^verbatim>\<open>for _, b := range ele { if b == '\n' { p.currentLine++ } }\<close>.\<close>

definition countLines :: "string \<Rightarrow> Parser \<Rightarrow> Parser" where
  "countLines ele p =
     fold (\<lambda>b q. if b = CHR 0x0A then q\<lparr>currentLine := currentLine q + 1\<rparr> else q) ele p"

text \<open>
  One turn of the loop of \<^verbatim>\<open>Parse\<close> on a token: the parser and the stacks afterwards, or
  the error returned. The parser is returned in both cases, since the line counter is
  advanced before the data is scanned.
\<close>

definition endElement :: "Stacks \<Rightarrow> xml_Name \<Rightarrow> error + Stacks" where
  "endElement st ele =
     (let es = startElementStack st; ns = nodeStack st in
      if es = [] then Inl (UnexpectedEndElement (Local ele))
      else if Local ele \<noteq> Local (Name (last es))
        then Inl (TagMismatch (Local (Name (last es))) (Local ele))
      else if length ns < 1 then Inl IndexOutOfRange
      else
        let popNode = last ns in
        if isEmptyNode popNode
          then Inr \<lparr>startElementStack = butlast es, nodeStack = butlast ns\<rparr>
        else if length ns < 2 then Inl IndexOutOfRange
        else Inr \<lparr>startElementStack = butlast es,
                  nodeStack =
                    butlast (ns[length ns - 2 := AddChild (ns ! (length ns - 2)) popNode])\<rparr>)"

definition charData :: "Stacks \<Rightarrow> string \<Rightarrow> error + Stacks" where
  "charData st ele =
     (let trimmed = TrimSpace ele in
      if length trimmed = 0 then Inr st
      else case scanDataNode trimmed of
        Inl err \<Rightarrow> Inl (DataScanError err)
      | Inr dataNode \<Rightarrow>
          let ns = nodeStack st in
          if length ns = 0 then Inl NodeStackEmpty
          else Inr (st\<lparr>nodeStack :=
                 ns[length ns - 1 := AddChild (ns ! (length ns - 1)) dataNode]\<rparr>))"

fun step :: "Parser \<Rightarrow> Stacks \<Rightarrow> Token \<Rightarrow> Parser \<times> (error + Stacks)" where
  "step p st (StartElement ele) =
     (p, Inr \<lparr>startElementStack = startElementStack st @ [ele],
              nodeStack = nodeStack st @ [newNodeByStartElement ele]\<rparr>)"
| "step p st (EndElement ele) = (p, endElement st ele)"
| "step p st (CharData ele) = (countLines ele p, charData st ele)"
| "step p st (Comment ele) = (countLines ele p, Inr st)"
| "step p st (ProcInst target inst) = (p, Inr st)"
| "step p st (Directive ele) = (p, Inr st)"

text \<open>The turns of the loop for the tokens that the decoder delivers.\<close>

fun run :: "Parser \<Rightarrow> Stacks \<Rightarrow> Token list \<Rightarrow> Parser \<times> (error + Stacks)" where
  "run p st [] = (p, Inr st)"
| "run p st (token # tokens) =
     (case step p st token of
        (p', Inl err) \<Rightarrow> (p', Inl err)
      | (p', Inr st') \<Rightarrow> run p' st' tokens)"

text \<open>The last turn, in which \<^verbatim>\<open>Token()\<close> returns an error.\<close>

definition atEnd :: "Stacks \<Rightarrow> TokenError \<Rightarrow> error + Node" where
  "atEnd st err =
     (case err of
        EOF \<Rightarrow>
          if length (startElementStack st) = 0
            then (case nodeStack st of [] \<Rightarrow> Inl RootLost | root # rest \<Rightarrow> Inr root)
          else Inl (UnterminatedElement (Local (Name (last (startElementStack st)))))
      | SyntaxError m \<Rightarrow> Inl (MalformedXml m))"

definition initStacks :: Stacks where
  "initStacks = \<lparr>startElementStack = [], nodeStack = [Elem RootNode []]\<rparr>"

definition Parse :: "Parser \<Rightarrow> Token list \<Rightarrow> TokenError \<Rightarrow> Parser \<times> (error + Node)" where
  "Parse p tokens err =
     (case run p initStacks tokens of
        (p', Inl e) \<Rightarrow> (p', Inl e)
      | (p', Inr st) \<Rightarrow> (p', atEnd st err))"

text \<open>\<^verbatim>\<open>NewParser\<close> leaves the line counter at its zero value.\<close>

definition NewParser :: Parser where
  "NewParser = \<lparr>buf = [], cursor = 0, currentLine = 0\<rparr>"

subsection \<open>The decoder behind Parse\<close>






subsection \<open>Notions used in the statements\<close>

text \<open>The stacks as the comment in \<^verbatim>\<open>Parse\<close> describes them: the node stack is one longer
  than the start element stack, the root is its slot 0, and no \<open>Data\<close> node is on it.\<close>

definition balanced :: "Stacks \<Rightarrow> bool" where
  "balanced st =
     (length (nodeStack st) = length (startElementStack st) + 1 \<and>
      (\<exists>cs. nodeStack st ! 0 = Elem RootNode cs) \<and>
      (\<forall>n \<in> set (nodeStack st). \<exists>k cs. n = Elem k cs))"

text \<open>An \<open>Empty\<close> node occurs in a tree, at its root or below.\<close>

fun hasEmptyNode :: "Node \<Rightarrow> bool" where
  "hasEmptyNode (Elem k cs) = (k = EmptyNode \<or> (\<exists>c \<in> set cs. hasEmptyNode c))"
| "hasEmptyNode (DataNode bs segs) = False"

text \<open>The names of the dispatch table of \<^verbatim>\<open>newNodeByStartElement\<close>.\<close>

definition dispatchNames :: "string list" where
  "dispatchNames =
     [''mapper'', ''select'', ''update'', ''insert'', ''delete'',
      ''if'', ''choose'', ''when'', ''otherwise'']"

text \<open>A well-formed piece of a document: an element with its content between its start
  and its end tag, character data, a comment, a processing instruction or a directive;
  and the tokens that the decoder delivers for it.\<close>

datatype Xml =
    Element xml_StartElement "Xml list"
  | Text string
  | Remark string
  | Instruction string string
  | Declaration string

fun tokensOf :: "Xml \<Rightarrow> Token list" where
  "tokensOf (Element ele body) =
     StartElement ele # concat (map tokensOf body) @ [EndElement (Name ele)]"
| "tokensOf (Text bs) = [CharData bs]"
| "tokensOf (Remark bs) = [Comment bs]"
| "tokensOf (Instruction target inst) = [ProcInst target inst]"
| "tokensOf (Declaration bs) = [Directive bs]"

text \<open>The newline bytes of a chunk, and those that a token shows to the parser.\<close>

definition lineBreaks :: "string \<Rightarrow> nat" where
  "lineBreaks bs = length (filter (\<lambda>b. b = CHR 0x0A) bs)"

fun tokenLines :: "Token \<Rightarrow> nat" where
  "tokenLines (CharData bs) = lineBreaks bs"
| "tokenLines (Comment bs) = lineBreaks bs"
| "tokenLines token = 0"

text \<open>A placeholder opener, \<^verbatim>\<open>#{\<close> or \<^verbatim>\<open>${\<close>, occurs in a byte sequence.\<close>

fun hasOpener :: "string \<Rightarrow> bool" where
  "hasOpener [] = False"
| "hasOpener [c] = False"
| "hasOpener (c # d # cs) =
     ((openerStyle c \<noteq> None \<and> d = CHR ''{'') \<or> hasOpener (d # cs))"

text \<open>No node of the node stack has an \<open>Empty\<close> node among its descendants.\<close>

definition pruned :: "Stacks \<Rightarrow> bool" where
  "pruned st = (\<forall>n \<in> set (nodeStack st). \<forall>c \<in> set (children n). \<not> hasEmptyNode c)"

text \<open>A token list that works in place: run on stacks whose top node is an element node,
  it fails or leaves the start element stack and the nodes below the top as they are, and
  appends children to the top node.\<close>

definition inPlace :: "Token list \<Rightarrow> bool" where
  "inPlace tokens =
     (\<forall>p st bs k cs p' st'.
        nodeStack st = bs @ [Elem k cs] \<longrightarrow> run p st tokens = (p', Inr st') \<longrightarrow>
          startElementStack st' = startElementStack st \<and>
          (\<exists>cs'. nodeStack st' = bs @ [Elem k (cs @ cs')]))"

text \<open>A name without name space and a start element without attributes, for examples.\<close>

definition plainName :: "string \<Rightarrow> xml_Name" where
  "plainName n = \<lparr>Space = [], Local = n\<rparr>"

definition plainElement :: "string \<Rightarrow> xml_StartElement" where
  "plainElement n = \<lparr>Name = plainName n, Attr = []\<rparr>"

declare trimLeft.simps [simp del]

section \<open>Properties\<close>

text \<open>The equations that evaluate the parser on a given token list.\<close>

lemmas eval =
  plainElement_def plainName_def newNodeByStartElement_def initStacks_def NewParser_def
  endElement_def charData_def TrimSpace_def spaceSeqs_def trimLeft.simps scanDataNode_def
  Scan_def countLines_def openerStyle_def atEnd_def Parse_def Let_def


subsection \<open>The stacks stay balanced\<close>

lemma attach_parent:
  "butlast ((bs @ [parent, popNode])[length (bs @ [parent, popNode]) - 2 :=
      f ((bs @ [parent, popNode]) ! (length (bs @ [parent, popNode]) - 2))]) = bs @ [f parent]"
  by (simp add: nth_append list_update_append butlast_append)

lemma attach_top:
  "(bs @ [tp])[length (bs @ [tp]) - 1 := f ((bs @ [tp]) ! (length (bs @ [tp]) - 1))] =
     bs @ [f tp]"
  by (simp add: nth_append list_update_append)

lemma two_top:
  assumes "2 \<le> length ns"
  obtains bs parent popNode where "ns = bs @ [parent, popNode]"
proof -
  from assms have "ns \<noteq> []" by auto
  then obtain ms popNode where ns: "ns = ms @ [popNode]" by (metis rev_exhaust)
  with assms have "ms \<noteq> []" by auto
  then obtain bs parent where "ms = bs @ [parent]" by (metis rev_exhaust)
  with ns have "ns = bs @ [parent, popNode]" by simp
  then show thesis by (rule that)
qed

text \<open>What an end element does on a node stack of two nodes or more, and what non-blank
  character data does on one with a top.\<close>

lemma endElement_pop:
  assumes "startElementStack st \<noteq> []"
    and "Local ele = Local (Name (last (startElementStack st)))"
    and "nodeStack st = bs @ [parent, popNode]"
  shows "endElement st ele =
     Inr \<lparr>startElementStack = butlast (startElementStack st),
          nodeStack = (if isEmptyNode popNode then bs @ [parent]
                       else bs @ [AddChild parent popNode])\<rparr>"
  using assms by (simp add: endElement_def Let_def attach_parent butlast_append)

lemma charData_top:
  assumes "TrimSpace ele \<noteq> []" and "nodeStack st = bs @ [tp]"
  shows "charData st ele =
     (case Scan (TrimSpace ele) of
        Inl e \<Rightarrow> Inl (DataScanError e)
      | Inr segs \<Rightarrow>
          Inr (st\<lparr>nodeStack := bs @ [AddChild tp (DataNode (TrimSpace ele) segs)]\<rparr>))"
  using assms
  by (simp add: charData_def scanDataNode_def Let_def attach_top split: sum.splits)

lemma endElement_balanced:
  assumes "balanced st" and "endElement st ele = Inr st'"
  shows "balanced st'"
proof -
  let ?es = "startElementStack st" and ?ns = "nodeStack st"
  from assms(2) have es: "?es \<noteq> []" and nm: "Local ele = Local (Name (last ?es))"
    by (auto simp: endElement_def Let_def split: if_splits)
  with assms(1) have "2 \<le> length ?ns" by (cases ?es) (auto simp: balanced_def)
  then obtain bs parent popNode where ns: "?ns = bs @ [parent, popNode]" by (rule two_top)
  from assms(1) ns have len: "length bs + 1 = length ?es" by (simp add: balanced_def)
  from assms(1) ns obtain cs0 where root: "(bs @ [parent]) ! 0 = Elem RootNode cs0"
    by (cases bs) (auto simp: balanced_def)
  from assms(1) ns have el: "\<forall>n \<in> set (bs @ [parent]). \<exists>k cs. n = Elem k cs"
    by (auto simp: balanced_def)
  from el obtain k cs where p: "parent = Elem k cs" by auto
  from root p have root': "\<exists>cs1. (bs @ [AddChild parent popNode]) ! 0 = Elem RootNode cs1"
    by (cases bs) auto
  from assms(2) endElement_pop [OF es nm ns]
  have st': "st' = \<lparr>startElementStack = butlast ?es,
          nodeStack = (if isEmptyNode popNode then bs @ [parent]
                       else bs @ [AddChild parent popNode])\<rparr>" by simp
  show ?thesis
  proof (cases "isEmptyNode popNode")
    case True
    with st' len root el es show ?thesis by (auto simp: balanced_def)
  next
    case False
    with st' len el p es root' show ?thesis by (auto simp: balanced_def)
  qed
qed

lemma charData_balanced:
  assumes "balanced st" and "charData st ele = Inr st'"
  shows "balanced st'"
proof (cases "TrimSpace ele = []")
  case True
  with assms show ?thesis by (simp add: charData_def)
next
  case False
  from assms(1) have "nodeStack st \<noteq> []" by (auto simp: balanced_def)
  then obtain bs tp where ns: "nodeStack st = bs @ [tp]" by (metis rev_exhaust)
  from assms(2) charData_top [OF False ns] obtain dataNode where
    st': "st' = st\<lparr>nodeStack := bs @ [AddChild tp dataNode]\<rparr>"
    by (auto split: sum.splits)
  from assms(1) ns obtain k cs where top: "tp = Elem k cs" by (auto simp: balanced_def)
  from assms(1) ns obtain cs0 where "(bs @ [tp]) ! 0 = Elem RootNode cs0"
    by (auto simp: balanced_def)
  with top have "\<exists>cs1. (bs @ [AddChild tp dataNode]) ! 0 = Elem RootNode cs1"
    by (cases bs) auto
  with assms(1) ns st' top show ?thesis by (auto simp: balanced_def)
qed

lemma newNode_Elem: "\<exists>k. newNodeByStartElement ele = Elem k []"
  by (simp add: newNodeByStartElement_def Let_def)

lemma step_balanced:
  assumes "balanced st" and "step p st token = (p', Inr st')"
  shows "balanced st'"
proof (cases token)
  case (StartElement ele)
  obtain k where "newNodeByStartElement ele = Elem k []" using newNode_Elem by blast
  with assms StartElement show ?thesis
    by (cases "nodeStack st") (auto simp: balanced_def)
next
  case (EndElement ele)
  with assms show ?thesis by (auto intro: endElement_balanced)
next
  case (CharData ele)
  with assms show ?thesis by (auto intro: charData_balanced)
qed (use assms in auto)

lemma run_balanced:
  "balanced st \<Longrightarrow> run p st tokens = (p', Inr st') \<Longrightarrow> balanced st'"
proof (induction tokens arbitrary: p st)
  case Nil
  then show ?case by simp
next
  case (Cons token tokens)
  obtain q r where s: "step p st token = (q, r)" by (cases "step p st token")
  with Cons.prems(2) obtain st1 where r: "r = Inr st1" by (cases r) auto
  with s Cons.prems(1) have "balanced st1" by (auto intro: step_balanced)
  moreover from s r Cons.prems(2) have "run q st1 tokens = (p', Inr st')" by simp
  ultimately show ?case by (rule Cons.IH)
qed

lemma init_balanced: "balanced initStacks"
  by (simp add: balanced_def initStacks_def)

lemma reached_balanced: "run p initStacks tokens = (p', Inr st) \<Longrightarrow> balanced st"
  using init_balanced by (rule run_balanced)

text \<open>
  C1. Whatever tokens the decoder has delivered, once the loop has processed the first
  \<open>n\<close> of them the node stack is one longer than the start element stack, and slot 0 of
  the node stack is the \<open>Root\<close> node.
\<close>

theorem balance_invariant:
  assumes "run p initStacks (take n tokens) = (p', Inr st)"
  shows "length (nodeStack st) = length (startElementStack st) + 1 \<and>
         (\<exists>cs. nodeStack st ! 0 = Elem RootNode cs)"
  using reached_balanced [OF assms] by (simp add: balanced_def)

theorem balance_invariant_witness:
  "run NewParser initStacks
     (take 2 [StartElement (plainElement ''mapper''), StartElement (plainElement ''foo''),
              CharData ''x'']) =
     (NewParser, Inr \<lparr>startElementStack = [plainElement ''mapper'', plainElement ''foo''],
        nodeStack = [Elem RootNode [], Elem (MapperNode (plainElement ''mapper'')) [],
                     Elem EmptyNode []]\<rparr>) \<and>
   length [Elem RootNode [], Elem (MapperNode (plainElement ''mapper'')) [], Elem EmptyNode []] =
     length [plainElement ''mapper'', plainElement ''foo''] + 1 \<and>
   (\<exists>cs. [Elem RootNode [], Elem (MapperNode (plainElement ''mapper'')) [],
          Elem EmptyNode []] ! 0 = Elem RootNode cs)"
proof -
  have h: "run NewParser initStacks
     (take 2 [StartElement (plainElement ''mapper''), StartElement (plainElement ''foo''),
              CharData ''x'']) =
     (NewParser, Inr \<lparr>startElementStack = [plainElement ''mapper'', plainElement ''foo''],
        nodeStack = [Elem RootNode [], Elem (MapperNode (plainElement ''mapper'')) [],
                     Elem EmptyNode []]\<rparr>)"
    by (simp add: eval)
  from balance_invariant [OF h] h show ?thesis by simp
qed

subsection \<open>No panic, and the node stack is never empty\<close>

lemma step_defined:
  assumes "balanced st"
  shows "snd (step p st token) \<noteq> Inl NodeStackEmpty \<and>
         snd (step p st token) \<noteq> Inl IndexOutOfRange"
proof (cases token)
  case (EndElement ele)
  show ?thesis
  proof (cases "startElementStack st = [] \<or>
                Local ele \<noteq> Local (Name (last (startElementStack st)))")
    case True
    with EndElement show ?thesis by (auto simp: endElement_def Let_def)
  next
    case False
    with assms have "2 \<le> length (nodeStack st)"
      by (cases "startElementStack st") (auto simp: balanced_def)
    then obtain bs parent popNode where "nodeStack st = bs @ [parent, popNode]"
      by (rule two_top)
    with False EndElement show ?thesis by (simp add: endElement_pop)
  qed
next
  case (CharData ele)
  from assms have "nodeStack st \<noteq> []" by (auto simp: balanced_def)
  then obtain bs tp where ns: "nodeStack st = bs @ [tp]" by (metis rev_exhaust)
  show ?thesis
  proof (cases "TrimSpace ele = []")
    case True
    with CharData show ?thesis by (simp add: charData_def)
  next
    case False
    with CharData ns show ?thesis by (simp add: charData_top split: sum.splits)
  qed
qed simp_all

lemma run_defined:
  "balanced st \<Longrightarrow>
     snd (run p st tokens) \<noteq> Inl NodeStackEmpty \<and>
     snd (run p st tokens) \<noteq> Inl IndexOutOfRange \<and>
     snd (run p st tokens) \<noteq> Inl RootLost"
proof (induction tokens arbitrary: p st)
  case Nil
  then show ?case by simp
next
  case (Cons token tokens)
  obtain q r where s: "step p st token = (q, r)" by (cases "step p st token")
  show ?case
  proof (cases r)
    case (Inl e)
    from step_defined [OF Cons.prems, of p token] s Inl
    have "e \<noteq> NodeStackEmpty" and "e \<noteq> IndexOutOfRange" by auto
    moreover from s Inl have "e \<noteq> RootLost"
      by (cases token) (auto simp: endElement_def charData_def Let_def
            split: if_splits sum.splits)
    ultimately show ?thesis using s Inl by simp
  next
    case (Inr st1)
    with s Cons.prems have "balanced st1" by (auto intro: step_balanced)
    from Cons.IH [OF this, of q] s Inr show ?thesis by simp
  qed
qed

lemma atEnd_defined:
  assumes "balanced st"
  shows "atEnd st err \<noteq> Inl NodeStackEmpty \<and> atEnd st err \<noteq> Inl IndexOutOfRange \<and>
         atEnd st err \<noteq> Inl RootLost"
proof -
  from assms obtain root rest where "nodeStack st = root # rest"
    by (cases "nodeStack st") (auto simp: balanced_def)
  then show ?thesis by (cases err) (simp_all add: atEnd_def)
qed

lemma Parse_total:
  "snd (Parse p tokens err) \<noteq> Inl NodeStackEmpty \<and>
   snd (Parse p tokens err) \<noteq> Inl IndexOutOfRange \<and>
   snd (Parse p tokens err) \<noteq> Inl RootLost"
proof -
  obtain q r where rn: "run p initStacks tokens = (q, r)"
    by (cases "run p initStacks tokens")
  show ?thesis
  proof (cases r)
    case (Inl e)
    with rn run_defined [OF init_balanced, of p tokens] show ?thesis
      by (simp add: Parse_def)
  next
    case (Inr st)
    with rn have "balanced st" by (auto intro: reached_balanced)
    from atEnd_defined [OF this, of err] rn Inr show ?thesis by (simp add: Parse_def)
  qed
qed

text \<open>
  C9. The failure \<^verbatim>\<open>node stack is empty\<close> of the character data branch is never returned,
  neither by \<^verbatim>\<open>Parse\<close> nor by any turn of its loop: after every token the node stack
  starts with the \<open>Root\<close> node.
\<close>

theorem node_stack_never_empty:
  "snd (Parse p tokens err) \<noteq> Inl NodeStackEmpty \<and>
   snd (run p initStacks tokens) \<noteq> Inl NodeStackEmpty \<and>
   (\<forall>st. snd (run p initStacks tokens) = Inr st \<longrightarrow>
      (\<exists>cs above. nodeStack st = Elem RootNode cs # above))"
proof -
  have "\<exists>cs above. nodeStack st = Elem RootNode cs # above"
    if "snd (run p initStacks tokens) = Inr st" for st
  proof -
    from that have "run p initStacks tokens = (fst (run p initStacks tokens), Inr st)"
      by (metis prod.collapse)
    then have "balanced st" by (rule reached_balanced)
    then show ?thesis by (cases "nodeStack st") (auto simp: balanced_def)
  qed
  with Parse_total [of p tokens err] run_defined [OF init_balanced, of p tokens]
  show ?thesis by blast
qed

theorem node_stack_never_empty_witness:
  "snd (Parse NewParser [CharData ''top'', EndElement (plainName ''mapper'')] EOF) \<noteq>
     Inl NodeStackEmpty \<and>
   snd (run NewParser initStacks [CharData ''top'']) =
     Inr \<lparr>startElementStack = [],
          nodeStack = [Elem RootNode [DataNode ''top'' [Literal ''top'']]]\<rparr> \<and>
   (\<exists>cs above. nodeStack \<lparr>startElementStack = [],
          nodeStack = [Elem RootNode [DataNode ''top'' [Literal ''top'']]]\<rparr> =
        Elem RootNode cs # above)"
proof -
  have h: "snd (run NewParser initStacks [CharData ''top'']) =
     Inr \<lparr>startElementStack = [],
          nodeStack = [Elem RootNode [DataNode ''top'' [Literal ''top'']]]\<rparr>"
    by (simp add: eval)
  from node_stack_never_empty
    [of NewParser "[CharData ''top'', EndElement (plainName ''mapper'')]" EOF]
  have "snd (Parse NewParser [CharData ''top'', EndElement (plainName ''mapper'')] EOF) \<noteq>
     Inl NodeStackEmpty" by blast
  moreover from node_stack_never_empty [of NewParser "[CharData ''top'']" EOF] h
  have "\<exists>cs above. nodeStack \<lparr>startElementStack = [],
          nodeStack = [Elem RootNode [DataNode ''top'' [Literal ''top'']]]\<rparr> =
        Elem RootNode cs # above" by blast
  ultimately show ?thesis using h by blast
qed

subsection \<open>End elements and the end of input\<close>

lemma run_append:
  "run p st (xs @ ys) =
     (case run p st xs of (p', Inl e) \<Rightarrow> (p', Inl e) | (p', Inr st') \<Rightarrow> run p' st' ys)"
proof (induction xs arbitrary: p st)
  case Nil
  then show ?case by simp
next
  case (Cons x xs)
  obtain q r where s: "step p st x = (q, r)" by (cases "step p st x")
  with Cons.IH show ?case by (cases r) simp_all
qed

lemma Parse_fails:
  assumes "run p initStacks tokens = (p', Inr st)"
    and "snd (step p' st token) = Inl e"
  shows "snd (Parse p (tokens @ token # later) err) = Inl e"
proof -
  obtain q where "step p' st token = (q, Inl e)"
    using assms(2) by (cases "step p' st token") auto
  with assms(1) show ?thesis by (simp add: Parse_def run_append)
qed

subsection \<open>What the decoder delivers\<close>
















subsection \<open>The line counter\<close>

lemma countLines_line:
  "currentLine (countLines ele p) = currentLine p + of_nat (lineBreaks ele)"
  by (induction ele arbitrary: p) (simp_all add: countLines_def lineBreaks_def)

lemma step_line:
  "currentLine (fst (step p st token)) = currentLine p + of_nat (tokenLines token)"
  by (cases token) (simp_all add: countLines_line)

lemma run_line:
  "\<exists>k \<le> sum_list (map tokenLines tokens).
     currentLine (fst (run p st tokens)) = currentLine p + of_nat k \<and>
     (\<forall>st'. snd (run p st tokens) = Inr st' \<longrightarrow> k = sum_list (map tokenLines tokens))"
proof (induction tokens arbitrary: p st)
  case Nil
  then show ?case by simp
next
  case (Cons token tokens)
  obtain q r where s: "step p st token = (q, r)" by (cases "step p st token")
  with step_line [of p st token]
  have q: "currentLine q = currentLine p + of_nat (tokenLines token)" by simp
  show ?case
  proof (cases r)
    case (Inl e)
    with s q show ?thesis by (intro exI [of _ "tokenLines token"]) simp
  next
    case (Inr st1)
    from Cons.IH [of q st1] obtain k where
      k: "k \<le> sum_list (map tokenLines tokens)"
        "currentLine (fst (run q st1 tokens)) = currentLine q + of_nat k"
        "\<forall>st'. snd (run q st1 tokens) = Inr st' \<longrightarrow> k = sum_list (map tokenLines tokens)"
      by blast
    with s q Inr show ?thesis by (intro exI [of _ "tokenLines token + k"]) simp
  qed
qed

lemma unat_advance:
  fixes x :: "64 word"
  assumes "unat x + k < 2 ^ 64"
  shows "unat (x + of_nat k) = unat x + k"
proof -
  from assms have "k < 2 ^ 64" by simp
  then have k: "unat (of_nat k :: 64 word) = k" by (simp add: unat_of_nat)
  with assms have "unat x + unat (of_nat k :: 64 word) < 2 ^ LENGTH(64)" by simp
  then have "unat (x + of_nat k) = unat x + unat (of_nat k :: 64 word)"
    by (simp only: unat_add_lem)
  with k show ?thesis by simp
qed

lemma sum_take_drop:
  fixes f :: "'a \<Rightarrow> nat"
  shows "sum_list (map f (take m xs)) + sum_list (map f (drop m xs)) = sum_list (map f xs)"
proof -
  have "sum_list (map f (take m xs @ drop m xs)) = sum_list (map f xs)" by simp
  then show ?thesis by (simp only: map_append sum_list_append)
qed

text \<open>
  C8. A turn of the loop adds to the line counter the number of newline bytes of the raw
  chunk of a character data or comment token, and nothing for any other token, whether
  the turn fails or not; a run that processes all its tokens has added the newline bytes
  of all of them. So the counter never decreases in the course of a run, as long as the
  64-bit counter does not wrap around, which takes more newline bytes than a Go string
  can hold.
\<close>

theorem line_counter:
  "currentLine (fst (step p st token)) = currentLine p + of_nat (tokenLines token) \<and>
   (\<forall>st'. snd (run p st tokens) = Inr st' \<longrightarrow>
      currentLine (fst (run p st tokens)) =
        currentLine p + of_nat (sum_list (map tokenLines tokens))) \<and>
   (unat (currentLine p) + sum_list (map tokenLines tokens) < 2 ^ 64 \<and> m \<le> n \<longrightarrow>
      unat (currentLine (fst (run p st (take m tokens)))) \<le>
      unat (currentLine (fst (run p st (take n tokens)))))"
proof (intro conjI impI allI)
  show "currentLine (fst (step p st token)) = currentLine p + of_nat (tokenLines token)"
    by (rule step_line)
next
  fix st'
  assume "snd (run p st tokens) = Inr st'"
  with run_line [of tokens p st]
  show "currentLine (fst (run p st tokens)) =
      currentLine p + of_nat (sum_list (map tokenLines tokens))"
    by auto
next
  assume a: "unat (currentLine p) + sum_list (map tokenLines tokens) < 2 ^ 64 \<and> m \<le> n"
  let ?xs = "take m tokens" and ?ys = "drop m (take n tokens)"
  let ?total = "\<lambda>ts. sum_list (map tokenLines ts)"
  from a have split: "take n tokens = ?xs @ ?ys"
    by (metis append_take_drop_id min.absorb1 take_take)
  then have "?total ?xs + ?total ?ys = ?total (take n tokens)"
    by (metis map_append sum_list_append)
  moreover have "?total (take n tokens) \<le> ?total tokens"
    using sum_take_drop [of tokenLines n tokens] by simp
  ultimately have bound: "?total ?xs + ?total ?ys \<le> ?total tokens" by simp
  obtain q r where rn: "run p st ?xs = (q, r)" by (cases "run p st ?xs")
  from run_line [of ?xs p st] rn obtain k1 where
    k1: "k1 \<le> ?total ?xs" "currentLine q = currentLine p + of_nat k1" by auto
  show "unat (currentLine (fst (run p st (take m tokens)))) \<le>
      unat (currentLine (fst (run p st (take n tokens))))"
  proof (cases r)
    case (Inl e)
    with rn have "run p st (?xs @ ?ys) = (q, Inl e)" by (simp add: run_append)
    with rn split show ?thesis by simp
  next
    case (Inr st1)
    with rn have cont: "run p st (?xs @ ?ys) = run q st1 ?ys" by (simp add: run_append)
    from run_line [of ?ys q st1] obtain k2 where
      k2: "k2 \<le> ?total ?ys"
        "currentLine (fst (run q st1 ?ys)) = currentLine q + of_nat k2" by auto
    from a bound k1 k2 have small: "unat (currentLine p) + (k1 + k2) < 2 ^ 64" by simp
    then have "unat (currentLine p) + k1 < 2 ^ 64" by simp
    then have u1: "unat (currentLine q) = unat (currentLine p) + k1"
      using k1(2) by (simp add: unat_advance)
    from k1(2) k2(2) have "currentLine (fst (run q st1 ?ys)) =
        currentLine p + of_nat (k1 + k2)" by simp
    with small have "unat (currentLine (fst (run q st1 ?ys))) =
        unat (currentLine p) + (k1 + k2)" by (simp only: unat_advance)
    with u1 cont rn split show ?thesis by simp
  qed
qed

theorem line_counter_witness:
  "currentLine (fst (step NewParser initStacks (CharData [CHR ''a'', CHR 0x0A, CHR 0x0A]))) = 2 \<and>
   snd (run NewParser initStacks
     [CharData [CHR ''a'', CHR 0x0A, CHR 0x0A], StartElement (plainElement ''if''),
      Comment [CHR 0x0A]]) =
     Inr \<lparr>startElementStack = [plainElement ''if''],
          nodeStack = [Elem RootNode [DataNode ''a'' [Literal ''a'']],
                       Elem (IfNode (plainElement ''if'')) []]\<rparr> \<and>
   currentLine (fst (run NewParser initStacks
     [CharData [CHR ''a'', CHR 0x0A, CHR 0x0A], StartElement (plainElement ''if''),
      Comment [CHR 0x0A]])) = 3 \<and>
   unat (currentLine NewParser) +
     sum_list (map tokenLines
       [CharData [CHR ''a'', CHR 0x0A, CHR 0x0A], StartElement (plainElement ''if''),
        Comment [CHR 0x0A]]) < 2 ^ 64 \<and>
   (1::nat) \<le> 2 \<and>
   unat (currentLine (fst (run NewParser initStacks (take 1
     [CharData [CHR ''a'', CHR 0x0A, CHR 0x0A], StartElement (plainElement ''if''),
      Comment [CHR 0x0A]])))) \<le>
   unat (currentLine (fst (run NewParser initStacks (take 2
     [CharData [CHR ''a'', CHR 0x0A, CHR 0x0A], StartElement (plainElement ''if''),
      Comment [CHR 0x0A]]))))"
proof -
  let ?tokens = "[CharData [CHR ''a'', CHR 0x0A, CHR 0x0A], StartElement (plainElement ''if''),
      Comment [CHR 0x0A]]"
  have h1: "snd (run NewParser initStacks ?tokens) =
     Inr \<lparr>startElementStack = [plainElement ''if''],
          nodeStack = [Elem RootNode [DataNode ''a'' [Literal ''a'']],
                       Elem (IfNode (plainElement ''if'')) []]\<rparr>"
    by (simp add: eval)
  have h2: "unat (currentLine NewParser) + sum_list (map tokenLines ?tokens) < 2 ^ 64 \<and>
      (1::nat) \<le> 2"
    by (simp add: NewParser_def lineBreaks_def)
  note inst = line_counter [of NewParser initStacks
      "CharData [CHR ''a'', CHR 0x0A, CHR 0x0A]" ?tokens 1 2]
  from inst have a: "currentLine (fst (step NewParser initStacks
      (CharData [CHR ''a'', CHR 0x0A, CHR 0x0A]))) = 2"
    by (simp add: NewParser_def lineBreaks_def)
  from inst h1 have b: "currentLine (fst (run NewParser initStacks ?tokens)) = 3"
    by (simp add: NewParser_def lineBreaks_def)
  from inst h2 have c: "unat (currentLine (fst (run NewParser initStacks (take 1 ?tokens)))) \<le>
      unat (currentLine (fst (run NewParser initStacks (take 2 ?tokens))))"
    by blast
  from a b c h1 h2 show ?thesis by blast
qed

subsection \<open>The data-segment tokenizer\<close>

lemma inside_unterminated:
  "CHR ''}'' \<notin> set cs \<Longrightarrow> scanFrom (Some st) acc cs = Inl UnterminatedPlaceholder"
  by (induction cs arbitrary: acc) auto

lemma inside_closed:
  "CHR ''}'' \<notin> set inner \<Longrightarrow>
     scanFrom (Some st) acc (inner @ CHR ''}'' # rest) =
       emit [Placeholder (acc @ inner) st] (scanFrom None [] rest)"
  by (induction inner arbitrary: acc) auto

lemma opener_not_brace: "openerStyle c = Some st \<Longrightarrow> c \<noteq> CHR ''{''"
  by (auto simp: openerStyle_def)

lemma plain_no_opener:
  "\<not> hasOpener cs \<Longrightarrow> scanFrom None acc cs = Inr (literal (acc @ cs))"
proof (induction cs arbitrary: acc rule: hasOpener.induct)
  case (3 c d cs)
  then show ?case by (cases "openerStyle c") auto
qed simp_all

lemma plain_then_opener:
  "\<not> hasOpener lit \<Longrightarrow> openerStyle c = Some st \<Longrightarrow>
     scanFrom None acc (lit @ c # CHR ''{'' # rest) =
       emit (literal (acc @ lit)) (scanFrom (Some st) [] rest)"
proof (induction lit arbitrary: acc rule: hasOpener.induct)
  case 1
  then show ?case by simp
next
  case (2 x)
  then show ?case by (cases "openerStyle x") (auto dest: opener_not_brace)
next
  case (3 x y zs)
  then show ?case by (cases "openerStyle x") auto
qed

lemma opener_not_closing: "openerStyle c = Some st \<Longrightarrow> c \<noteq> CHR ''}''"
  by (auto simp: openerStyle_def split: if_splits)

lemma open_unterminated:
  "openerStyle c = Some st \<Longrightarrow> CHR ''}'' \<notin> set rest \<Longrightarrow>
     scanFrom m acc (pre @ c # CHR ''{'' # rest) = Inl UnterminatedPlaceholder"
proof (induction m acc pre rule: scanFrom.induct)
  case (1 acc)
  then show ?case by (simp add: inside_unterminated)
next
  case (2 st' acc)
  then have "CHR ''}'' \<notin> set (c # CHR ''{'' # rest)"
    by (auto dest: opener_not_closing)
  then have "scanFrom (Some st') acc (c # CHR ''{'' # rest) = Inl UnterminatedPlaceholder"
    by (rule inside_unterminated)
  then show ?case by simp
next
  case (3 st' acc x xs)
  then show ?case by (cases "x = CHR ''}''") simp_all
next
  case (4 acc x)
  then show ?case
    by (cases "openerStyle x") (auto dest: opener_not_brace simp: inside_unterminated)
next
  case (5 acc x y zs)
  then show ?case by (cases "openerStyle x") (auto split: if_splits)
qed

text \<open>
  C5. The scan of the empty input is the empty segment sequence; the scan of a non-empty
  input without opener is the single \<open>Literal\<close> of the input; and where the first opener
  \<^verbatim>\<open>#{\<close> or \<^verbatim>\<open>${\<close> follows the plain bytes \<open>lit\<close> and is closed by the first \<^verbatim>\<open>}\<close> after
  the bytes \<open>inner\<close>, the scan emits the \<open>Literal\<close> of \<open>lit\<close>, unless \<open>lit\<close> is empty, then
  the \<open>Placeholder\<close> of \<open>inner\<close> with the style of the opener (\<open>Bind\<close> for \<^verbatim>\<open>#\<close>,
  \<open>Substitution\<close> for \<^verbatim>\<open>$\<close>), then the segments of the scan of the rest.
\<close>

theorem scan_segments:
  "Scan [] = Inr [] \<and>
   (\<not> hasOpener bs \<and> bs \<noteq> [] \<longrightarrow> Scan bs = Inr [Literal bs]) \<and>
   (\<not> hasOpener lit \<and> openerStyle c = Some st \<and> CHR ''}'' \<notin> set inner \<longrightarrow>
      Scan (lit @ c # CHR ''{'' # inner @ CHR ''}'' # rest) =
        emit (literal lit @ [Placeholder inner st]) (Scan rest)) \<and>
   openerStyle (CHR ''#'') = Some Bind \<and>
   openerStyle (CHR ''$'') = Some Substitution"
proof (intro conjI impI)
  show "Scan [] = Inr []" by (simp add: Scan_def)
next
  assume "\<not> hasOpener bs \<and> bs \<noteq> []"
  then show "Scan bs = Inr [Literal bs]"
    by (cases bs) (simp_all add: Scan_def plain_no_opener)
next
  assume a: "\<not> hasOpener lit \<and> openerStyle c = Some st \<and> CHR ''}'' \<notin> set inner"
  then have "Scan (lit @ c # CHR ''{'' # inner @ CHR ''}'' # rest) =
      emit (literal lit) (emit [Placeholder inner st] (Scan rest))"
    by (simp add: Scan_def plain_then_opener inside_closed)
  then show "Scan (lit @ c # CHR ''{'' # inner @ CHR ''}'' # rest) =
        emit (literal lit @ [Placeholder inner st]) (Scan rest)"
    by (cases "Scan rest") simp_all
qed (simp_all add: openerStyle_def)

theorem scan_segments_witness:
  "\<not> hasOpener ''SELECT * FROM t'' \<and> ''SELECT * FROM t'' \<noteq> [] \<and>
   Scan ''SELECT * FROM t'' = Inr [Literal ''SELECT * FROM t''] \<and>
   \<not> hasOpener ''WHERE id = '' \<and> openerStyle (CHR ''#'') = Some Bind \<and>
   CHR ''}'' \<notin> set ''id'' \<and>
   Scan (''WHERE id = '' @ CHR ''#'' # CHR ''{'' # ''id'' @ CHR ''}'' # '' ORDER BY ${col}'') =
     Inr [Literal ''WHERE id = '', Placeholder ''id'' Bind, Literal '' ORDER BY '',
          Placeholder ''col'' Substitution]"
proof -
  have h1: "\<not> hasOpener ''SELECT * FROM t'' \<and> ''SELECT * FROM t'' \<noteq> []"
    by (simp add: openerStyle_def)
  have h2: "\<not> hasOpener ''WHERE id = '' \<and> openerStyle (CHR ''#'') = Some Bind \<and>
      CHR ''}'' \<notin> set ''id''"
    by (simp add: openerStyle_def)
  have r: "Scan '' ORDER BY ${col}'' =
      Inr [Literal '' ORDER BY '', Placeholder ''col'' Substitution]"
    by (simp add: Scan_def openerStyle_def)
  from scan_segments [of "''SELECT * FROM t''"] h1
  have a: "Scan ''SELECT * FROM t'' = Inr [Literal ''SELECT * FROM t'']" by blast
  from scan_segments [of _ "''WHERE id = ''" "CHR ''#''" Bind "''id''" "'' ORDER BY ${col}''"] h2
  have "Scan (''WHERE id = '' @ CHR ''#'' # CHR ''{'' # ''id'' @ CHR ''}'' # '' ORDER BY ${col}'') =
      emit (literal ''WHERE id = '' @ [Placeholder ''id'' Bind]) (Scan '' ORDER BY ${col}'')"
    by blast
  with r have b: "Scan (''WHERE id = '' @ CHR ''#'' # CHR ''{'' # ''id'' @ CHR ''}'' #
      '' ORDER BY ${col}'') =
     Inr [Literal ''WHERE id = '', Placeholder ''id'' Bind, Literal '' ORDER BY '',
          Placeholder ''col'' Substitution]"
    by simp
  from a b h1 h2 show ?thesis by blast
qed

subsection \<open>Character data\<close>

lemma trimLeft_blank:
  "set s \<subseteq> {CHR 0x20, CHR 0x09, CHR 0x0A} \<Longrightarrow> trimLeft spaceSeqs s = []"
proof (induction s)
  case Nil
  show ?case by (simp add: trimLeft.simps spaceSeqs_def)
next
  case (Cons c cs)
  then have "stripOne spaceSeqs (c # cs) = Some cs" by (auto simp: spaceSeqs_def)
  with Cons show ?case by (simp add: trimLeft.simps [of spaceSeqs "c # cs"])
qed

lemma TrimSpace_blank:
  "set s \<subseteq> {CHR 0x20, CHR 0x09, CHR 0x0A} \<Longrightarrow> TrimSpace s = []"
  by (simp add: TrimSpace_def trimLeft_blank) (simp add: trimLeft.simps spaceSeqs_def)

lemma Parse_continues:
  assumes "run p initStacks tokens = (p', Inr st)"
  shows "run p initStacks (tokens @ [token]) = step p' st token"
  using assms by (cases "step p' st token") (auto simp: run_append split: sum.splits)

text \<open>
  C6. When the trimmed bytes of a character data chunk contain an opener \<^verbatim>\<open>#{\<close> or
  \<^verbatim>\<open>${\<close> after which no \<^verbatim>\<open>}\<close> follows, the tokenizer fails with
  \<open>UnterminatedPlaceholder\<close>, the turn of the loop fails with \<open>DataScanError\<close> wrapping
  that error, and so does \<^verbatim>\<open>Parse\<close>, whatever tokens would follow.
\<close>

theorem scan_failure:
  assumes "run p0 initStacks tokens = (p, Inr st)"
    and "TrimSpace ele = pre @ c # CHR ''{'' # rest"
    and "openerStyle c = Some sty"
    and "CHR ''}'' \<notin> set rest"
  shows "Scan (TrimSpace ele) = Inl UnterminatedPlaceholder \<and>
         snd (step p st (CharData ele)) = Inl (DataScanError UnterminatedPlaceholder) \<and>
         snd (Parse p0 (tokens @ CharData ele # later) err) =
           Inl (DataScanError UnterminatedPlaceholder)"
proof -
  from assms(3,4) have sc: "Scan (pre @ c # CHR ''{'' # rest) = Inl UnterminatedPlaceholder"
    by (simp add: Scan_def open_unterminated)
  with assms(2) have stp: "snd (step p st (CharData ele)) =
      Inl (DataScanError UnterminatedPlaceholder)"
    by (simp add: charData_def scanDataNode_def)
  from assms(1) stp have "snd (Parse p0 (tokens @ CharData ele # later) err) =
      Inl (DataScanError UnterminatedPlaceholder)"
    by (rule Parse_fails)
  with sc stp assms(2) show ?thesis by simp
qed

theorem scan_failure_witness:
  "TrimSpace '' x = #{id '' = ''x = '' @ CHR ''#'' # CHR ''{'' # ''id'' \<and>
   openerStyle (CHR ''#'') = Some Bind \<and>
   CHR ''}'' \<notin> set ''id'' \<and>
   Scan (TrimSpace '' x = #{id '') = Inl UnterminatedPlaceholder \<and>
   snd (Parse NewParser
     ([StartElement (plainElement ''select'')] @ CharData '' x = #{id '' #
      [EndElement (plainName ''select'')]) EOF) =
     Inl (DataScanError UnterminatedPlaceholder)"
proof -
  have h1: "run NewParser initStacks [StartElement (plainElement ''select'')] =
    (NewParser, Inr \<lparr>startElementStack = [plainElement ''select''],
         nodeStack = [Elem RootNode [], Elem (QueryNode (plainElement ''select'')) []]\<rparr>)"
    by (simp add: eval)
  have h2: "TrimSpace '' x = #{id '' = ''x = '' @ CHR ''#'' # CHR ''{'' # ''id''"
    by (simp add: eval)
  have h3: "openerStyle (CHR ''#'') = Some Bind" by (simp add: eval)
  have h4: "CHR ''}'' \<notin> set ''id''" by simp
  from scan_failure [OF h1 h2 h3 h4, of "[EndElement (plainName ''select'')]" EOF]
    h2 h3 h4
  show ?thesis by blast
qed

text \<open>The trimmed string is empty exactly for a string made of white space sequences.\<close>

lemma stripPrefix_Some: "stripPrefix q s = Some r \<Longrightarrow> s = q @ r"
  by (induction q s rule: stripPrefix.induct) (auto split: if_splits)

lemma stripPrefix_append: "stripPrefix q (q @ r) = Some r"
  by (induction q) simp_all

lemma stripOne_Some: "stripOne qs s = Some r \<Longrightarrow> \<exists>q \<in> set qs. q \<noteq> [] \<and> s = q @ r"
  by (induction qs s rule: stripOne.induct)
     (auto split: if_splits option.splits dest: stripPrefix_Some)

lemma stripOne_Nil: "stripOne qs [] = None"
proof (induction qs)
  case Nil
  show ?case by simp
next
  case (Cons q qs)
  then show ?case by (cases q) simp_all
qed

lemma stripOne_member: "q \<in> set qs \<Longrightarrow> q \<noteq> [] \<Longrightarrow> stripOne qs (q @ r) \<noteq> None"
  by (induction qs) (auto simp: stripPrefix_append split: option.splits)

lemma trimLeft_decomp: "\<exists>ws. set ws \<subseteq> set qs \<and> s = concat ws @ trimLeft qs s"
proof (induction qs s rule: trimLeft.induct)
  case (1 qs s)
  show ?case
  proof (cases "stripOne qs s")
    case None
    then have "s = concat [] @ trimLeft qs s" by (simp add: trimLeft.simps)
    then show ?thesis by (metis empty_set empty_subsetI)
  next
    case (Some r)
    then obtain q where q: "q \<in> set qs" "s = q @ r" using stripOne_Some by blast
    from "1.IH" [OF Some] obtain ws where
      ws: "set ws \<subseteq> set qs" "r = concat ws @ trimLeft qs r" by blast
    from Some have "trimLeft qs s = trimLeft qs r" by (simp add: trimLeft.simps [of qs s])
    with q ws have "set (q # ws) \<subseteq> set qs \<and> s = concat (q # ws) @ trimLeft qs s" by simp
    then show ?thesis by blast
  qed
qed

lemma trimLeft_fix: "stripOne qs (trimLeft qs s) = None"
proof (induction qs s rule: trimLeft.induct)
  case (1 qs s)
  show ?case
  proof (cases "stripOne qs s")
    case None
    then show ?thesis by (simp add: trimLeft.simps [of qs s])
  next
    case (Some r)
    with "1.IH" [OF Some] show ?thesis by (simp add: trimLeft.simps [of qs s])
  qed
qed

lemma spaceSeqs_nonempty: "q \<in> set spaceSeqs \<Longrightarrow> q \<noteq> []"
  by (auto simp: spaceSeqs_def)

lemma spaceSeqs_strip: "q \<in> set spaceSeqs \<Longrightarrow> stripOne spaceSeqs (q @ r) = Some r"
  by (auto simp: spaceSeqs_def)

lemma trimLeft_spaces:
  "set ws \<subseteq> set spaceSeqs \<Longrightarrow> trimLeft spaceSeqs (concat ws) = []"
proof (induction ws)
  case Nil
  show ?case by (simp add: trimLeft.simps stripOne_Nil)
next
  case (Cons q ws)
  then have "stripOne spaceSeqs (q @ concat ws) = Some (concat ws)"
    by (simp add: spaceSeqs_strip)
  with Cons show ?case by (simp add: trimLeft.simps [of spaceSeqs "q @ concat ws"])
qed

lemma TrimSpace_empty_iff:
  "(TrimSpace s = []) = (\<exists>ws. set ws \<subseteq> set spaceSeqs \<and> s = concat ws)"
proof
  assume e: "TrimSpace s = []"
  let ?x = "trimLeft spaceSeqs s"
  from e have "trimLeft (map rev spaceSeqs) (rev ?x) = []" by (simp add: TrimSpace_def)
  with trimLeft_decomp [of "map rev spaceSeqs" "rev ?x"] obtain vs where
    vs: "set vs \<subseteq> set (map rev spaceSeqs)" "rev ?x = concat vs" by auto
  have "?x = []"
  proof (rule ccontr)
    assume ne: "?x \<noteq> []"
    from vs(2) have x: "?x = concat (map rev (rev vs))"
      by (metis rev_concat rev_rev_ident)
    let ?ys = "map rev (rev vs)"
    from vs(1) have ys: "set ?ys \<subseteq> set spaceSeqs" by auto
    from ne x obtain y ys' where "?ys = y # ys'" by (cases ?ys) auto
    with x ys have "y \<in> set spaceSeqs" and "?x = y @ concat ys'" by auto
    with spaceSeqs_nonempty have "stripOne spaceSeqs ?x \<noteq> None"
      by (metis stripOne_member)
    with trimLeft_fix [of spaceSeqs s] show False by simp
  qed
  with trimLeft_decomp [of spaceSeqs s] show "\<exists>ws. set ws \<subseteq> set spaceSeqs \<and> s = concat ws"
    by auto
next
  assume "\<exists>ws. set ws \<subseteq> set spaceSeqs \<and> s = concat ws"
  then have "trimLeft spaceSeqs s = []" by (auto simp: trimLeft_spaces)
  then show "TrimSpace s = []"
    by (simp add: TrimSpace_def trimLeft.simps [of _ "[]"] stripOne_Nil)
qed

text \<open>
  C7, amended. White space is what \<^verbatim>\<open>strings.TrimSpace\<close> removes: a chunk is made of
  white space only, spaces, tabs and newlines among it, exactly when its trimmed bytes are
  empty. In a state that the loop has reached, character data of white space only leaves
  both stacks, and so the tree, as they are: no node is made. Other character data, if the
  tokenizer accepts its trimmed bytes, yields one \<open>Data\<close> node of the trimmed bytes,
  appended as the last child of the node on top of the node stack, while the start element
  stack and the length of the node stack do not change; if the tokenizer rejects them, the
  turn fails with \<open>DataScanError\<close> wrapping its error, and no node is appended.

  As stated the claim fails: for the chunk \<^verbatim>\<open>x = #{id\<close>, which the tokenizer rejects, the
  turn ends in \<open>DataScanError\<close> and no node is appended; and a chunk that is a carriage
  return, none of space, tab and newline, makes no node.
\<close>

theorem character_data:
  assumes "run p0 initStacks tokens = (p, Inr st)"
  shows
    "(TrimSpace ele = []) = (\<exists>ws. set ws \<subseteq> set spaceSeqs \<and> ele = concat ws) \<and>
     (set ele \<subseteq> {CHR 0x20, CHR 0x09, CHR 0x0A} \<longrightarrow> TrimSpace ele = []) \<and>
     (TrimSpace ele = [] \<longrightarrow> step p st (CharData ele) = (countLines ele p, Inr st)) \<and>
     (TrimSpace ele \<noteq> [] \<and> Scan (TrimSpace ele) = Inr segs \<longrightarrow>
        (\<exists>bs k cs.
           nodeStack st = bs @ [Elem k cs] \<and>
           step p st (CharData ele) =
             (countLines ele p,
              Inr (st\<lparr>nodeStack :=
                bs @ [Elem k (cs @ [DataNode (TrimSpace ele) segs])]\<rparr>)))) \<and>
     (TrimSpace ele \<noteq> [] \<and> Scan (TrimSpace ele) = Inl e \<longrightarrow>
        step p st (CharData ele) = (countLines ele p, Inl (DataScanError e)))"
proof (intro conjI impI)
  show "(TrimSpace ele = []) = (\<exists>ws. set ws \<subseteq> set spaceSeqs \<and> ele = concat ws)"
    by (rule TrimSpace_empty_iff)
next
  assume "set ele \<subseteq> {CHR 0x20, CHR 0x09, CHR 0x0A}"
  then show "TrimSpace ele = []" by (rule TrimSpace_blank)
next
  assume "TrimSpace ele = []"
  then show "step p st (CharData ele) = (countLines ele p, Inr st)"
    by (simp add: charData_def)
next
  assume a: "TrimSpace ele \<noteq> [] \<and> Scan (TrimSpace ele) = Inr segs"
  from assms have bal: "balanced st" by (rule reached_balanced)
  then have "nodeStack st \<noteq> []" by (auto simp: balanced_def)
  then obtain bs tp where ns: "nodeStack st = bs @ [tp]" by (metis rev_exhaust)
  with bal obtain k cs where tp: "tp = Elem k cs" by (auto simp: balanced_def)
  from a ns have "charData st ele =
      Inr (st\<lparr>nodeStack := bs @ [AddChild tp (DataNode (TrimSpace ele) segs)]\<rparr>)"
    by (simp add: charData_top)
  with tp have "step p st (CharData ele) =
      (countLines ele p,
       Inr (st\<lparr>nodeStack := bs @ [Elem k (cs @ [DataNode (TrimSpace ele) segs])]\<rparr>))"
    by simp
  with ns tp show "\<exists>bs k cs.
           nodeStack st = bs @ [Elem k cs] \<and>
           step p st (CharData ele) =
             (countLines ele p,
              Inr (st\<lparr>nodeStack :=
                bs @ [Elem k (cs @ [DataNode (TrimSpace ele) segs])]\<rparr>))"
    by blast
next
  assume "TrimSpace ele \<noteq> [] \<and> Scan (TrimSpace ele) = Inl e"
  then show "step p st (CharData ele) = (countLines ele p, Inl (DataScanError e))"
    by (simp add: charData_def scanDataNode_def)
qed

theorem character_data_counterexample:
  "TrimSpace ''x = #{id'' = ''x = #{id'' \<and>
   step NewParser initStacks (CharData ''x = #{id'') =
     (NewParser, Inl (DataScanError UnterminatedPlaceholder)) \<and>
   \<not> set [CHR 0x0D] \<subseteq> {CHR 0x20, CHR 0x09, CHR 0x0A} \<and>
   step NewParser initStacks (CharData [CHR 0x0D]) = (NewParser, Inr initStacks)"
  by (simp add: eval)

theorem character_data_witness:
  "set [CHR 0x20, CHR 0x0A, CHR 0x09] \<subseteq> {CHR 0x20, CHR 0x09, CHR 0x0A} \<and>
   step NewParser
     \<lparr>startElementStack = [plainElement ''select''],
      nodeStack = [Elem RootNode [], Elem (QueryNode (plainElement ''select'')) []]\<rparr>
     (CharData [CHR 0x20, CHR 0x0A, CHR 0x09]) =
     (NewParser\<lparr>currentLine := 1\<rparr>,
      Inr \<lparr>startElementStack = [plainElement ''select''],
      nodeStack = [Elem RootNode [], Elem (QueryNode (plainElement ''select'')) []]\<rparr>) \<and>
   set [[CHR 0xC2, CHR 0xA0], [CHR 0x0D]] \<subseteq> set spaceSeqs \<and>
   TrimSpace [CHR 0xC2, CHR 0xA0, CHR 0x0D] = [] \<and>
   step NewParser
     \<lparr>startElementStack = [plainElement ''select''],
      nodeStack = [Elem RootNode [], Elem (QueryNode (plainElement ''select'')) []]\<rparr>
     (CharData [CHR 0xC2, CHR 0xA0, CHR 0x0D]) =
     (NewParser,
      Inr \<lparr>startElementStack = [plainElement ''select''],
      nodeStack = [Elem RootNode [], Elem (QueryNode (plainElement ''select'')) []]\<rparr>) \<and>
   TrimSpace '' SELECT 1 '' = ''SELECT 1'' \<and>
   Scan ''SELECT 1'' = Inr [Literal ''SELECT 1''] \<and>
   step NewParser
     \<lparr>startElementStack = [plainElement ''select''],
      nodeStack = [Elem RootNode [], Elem (QueryNode (plainElement ''select'')) []]\<rparr>
     (CharData '' SELECT 1 '') =
     (NewParser,
      Inr \<lparr>startElementStack = [plainElement ''select''],
      nodeStack = [Elem RootNode [], Elem (QueryNode (plainElement ''select''))
         [DataNode ''SELECT 1'' [Literal ''SELECT 1'']]]\<rparr>) \<and>
   TrimSpace '' id = ${id '' = ''id = ${id'' \<and>
   Scan ''id = ${id'' = Inl UnterminatedPlaceholder \<and>
   step NewParser
     \<lparr>startElementStack = [plainElement ''select''],
      nodeStack = [Elem RootNode [], Elem (QueryNode (plainElement ''select'')) []]\<rparr>
     (CharData '' id = ${id '') =
     (NewParser, Inl (DataScanError UnterminatedPlaceholder))"
proof -
  let ?st = "\<lparr>startElementStack = [plainElement ''select''],
      nodeStack = [Elem RootNode [], Elem (QueryNode (plainElement ''select'')) []]\<rparr>"
  have h1: "run NewParser initStacks [StartElement (plainElement ''select'')] =
    (NewParser, Inr ?st)"
    by (simp add: eval)
  have h2: "set [CHR 0x20, CHR 0x0A, CHR 0x09] \<subseteq> {CHR 0x20, CHR 0x09, CHR 0x0A}" by simp
  have h3: "TrimSpace '' SELECT 1 '' = ''SELECT 1''" by (simp add: eval)
  have h4: "Scan ''SELECT 1'' = Inr [Literal ''SELECT 1'']" by (simp add: eval)
  have h5: "set [[CHR 0xC2, CHR 0xA0], [CHR 0x0D]] \<subseteq> set spaceSeqs"
    by (simp add: spaceSeqs_def)
  have h6: "TrimSpace '' id = ${id '' = ''id = ${id''" by (simp add: eval)
  have h7: "Scan ''id = ${id'' = Inl UnterminatedPlaceholder" by (simp add: eval)
  have c1: "countLines [CHR 0x20, CHR 0x0A, CHR 0x09] NewParser = NewParser\<lparr>currentLine := 1\<rparr>"
    by (simp add: eval)
  have c2: "countLines '' SELECT 1 '' NewParser = NewParser" by (simp add: eval)
  have c3: "countLines [CHR 0xC2, CHR 0xA0, CHR 0x0D] NewParser = NewParser" by (simp add: eval)
  have c4: "countLines '' id = ${id '' NewParser = NewParser" by (simp add: eval)
  from character_data [OF h1, where ele = "[CHR 0x20, CHR 0x0A, CHR 0x09]"] h2 c1
  have a: "step NewParser ?st (CharData [CHR 0x20, CHR 0x0A, CHR 0x09]) =
     (NewParser\<lparr>currentLine := 1\<rparr>, Inr ?st)"
    by simp
  from character_data [OF h1, where ele = "[CHR 0xC2, CHR 0xA0, CHR 0x0D]"] h5
  have t: "TrimSpace [CHR 0xC2, CHR 0xA0, CHR 0x0D] = []"
    by (metis concat.simps(1,2) append_Cons append_Nil)
  with character_data [OF h1, where ele = "[CHR 0xC2, CHR 0xA0, CHR 0x0D]"] c3
  have b: "step NewParser ?st (CharData [CHR 0xC2, CHR 0xA0, CHR 0x0D]) = (NewParser, Inr ?st)"
    by simp
  from character_data [OF h1, where ele = "'' SELECT 1 ''" and segs = "[Literal ''SELECT 1'']"]
    h3 h4 c2
  have c: "step NewParser ?st (CharData '' SELECT 1 '') =
     (NewParser,
      Inr \<lparr>startElementStack = [plainElement ''select''],
      nodeStack = [Elem RootNode [], Elem (QueryNode (plainElement ''select''))
         [DataNode ''SELECT 1'' [Literal ''SELECT 1'']]]\<rparr>)"
    by auto
  from character_data [OF h1, where ele = "'' id = ${id ''" and e = UnterminatedPlaceholder]
    h6 h7 c4
  have d: "step NewParser ?st (CharData '' id = ${id '') =
     (NewParser, Inl (DataScanError UnterminatedPlaceholder))"
    by simp
  from a b c d t h2 h3 h4 h5 h6 h7 show ?thesis by blast
qed

text \<open>
  C10, amended. In a state that the loop has reached with no element open, character data
  whose trimmed bytes are not empty and are accepted by the tokenizer does not fail: the
  node stack is the \<open>Root\<close> node alone, and the \<open>Data\<close> node becomes its last child.

  As stated, for all such character data, the claim fails: on the chunk \<^verbatim>\<open>${top\<close> at
  top level, which the tokenizer rejects, the parse fails with \<open>DataScanError\<close>.
\<close>

theorem top_level_data:
  assumes "run p0 initStacks tokens = (p, Inr st)"
    and "startElementStack st = []"
    and "TrimSpace ele \<noteq> []"
    and "Scan (TrimSpace ele) = Inr segs"
  shows "\<exists>cs. nodeStack st = [Elem RootNode cs] \<and>
           run p0 initStacks (tokens @ [CharData ele]) =
             (countLines ele p,
              Inr (st\<lparr>nodeStack :=
                [Elem RootNode (cs @ [DataNode (TrimSpace ele) segs])]\<rparr>))"
proof -
  from assms(1) have "balanced st" by (rule reached_balanced)
  with assms(2) obtain cs where ns: "nodeStack st = [] @ [Elem RootNode cs]"
    by (cases "nodeStack st") (auto simp: balanced_def)
  from charData_top [OF assms(3) ns] assms(4) have "step p st (CharData ele) =
      (countLines ele p,
       Inr (st\<lparr>nodeStack := [Elem RootNode (cs @ [DataNode (TrimSpace ele) segs])]\<rparr>))"
    by simp
  with Parse_continues [OF assms(1), of "CharData ele"] ns show ?thesis by simp
qed

theorem top_level_data_counterexample:
  "startElementStack initStacks = [] \<and>
   TrimSpace ''${top'' = ''${top'' \<and>
   Parse NewParser [CharData ''${top''] EOF =
     (NewParser, Inl (DataScanError UnterminatedPlaceholder))"
  by (simp add: eval)

theorem top_level_data_witness:
  "run NewParser initStacks [Comment ''c''] = (NewParser, Inr initStacks) \<and>
   startElementStack initStacks = [] \<and>
   TrimSpace ''SELECT 1'' \<noteq> [] \<and>
   Scan (TrimSpace ''SELECT 1'') = Inr [Literal ''SELECT 1''] \<and>
   run NewParser initStacks ([Comment ''c''] @ [CharData ''SELECT 1'']) =
     (NewParser,
      Inr \<lparr>startElementStack = [],
           nodeStack = [Elem RootNode [DataNode ''SELECT 1'' [Literal ''SELECT 1'']]]\<rparr>)"
proof -
  have h1: "run NewParser initStacks [Comment ''c''] = (NewParser, Inr initStacks)"
    by (simp add: eval)
  have h2: "startElementStack initStacks = []" by (simp add: eval)
  have h3: "TrimSpace ''SELECT 1'' \<noteq> []" by (simp add: eval)
  have h4: "Scan (TrimSpace ''SELECT 1'') = Inr [Literal ''SELECT 1'']" by (simp add: eval)
  have t: "TrimSpace ''SELECT 1'' = ''SELECT 1''" by (simp add: eval)
  have c: "countLines ''SELECT 1'' NewParser = NewParser" by (simp add: eval)
  from top_level_data [OF h1 h2 h3 h4] t c
  have "run NewParser initStacks ([Comment ''c''] @ [CharData ''SELECT 1'']) =
     (NewParser,
      Inr \<lparr>startElementStack = [],
           nodeStack = [Elem RootNode [DataNode ''SELECT 1'' [Literal ''SELECT 1'']]]\<rparr>)"
    by (auto simp: initStacks_def)
  with h1 h2 h3 h4 show ?thesis by blast
qed

subsection \<open>Unknown elements are pruned\<close>

lemma step_stacks: "snd (step p st token) = snd (step q st token)"
  by (cases token) simp_all

lemma run_stacks: "snd (run p st tokens) = snd (run q st tokens)"
proof (induction tokens arbitrary: p q st)
  case Nil
  show ?case by simp
next
  case (Cons token tokens)
  obtain p1 r1 where s1: "step p st token = (p1, r1)" by (cases "step p st token")
  obtain q1 r2 where s2: "step q st token = (q1, r2)" by (cases "step q st token")
  from step_stacks [of p st token q] s1 s2 have s2': "step q st token = (q1, r1)" by simp
  show ?case
  proof (cases r1)
    case (Inl e)
    with s1 s2' show ?thesis by simp
  next
    case (Inr st1)
    with s1 s2' Cons.IH [of p1 st1 q1] show ?thesis by simp
  qed
qed

lemma inPlace_Nil: "inPlace []"
  by (simp add: inPlace_def)

lemma inPlace_append:
  assumes "inPlace xs" and "inPlace ys"
  shows "inPlace (xs @ ys)"
  unfolding inPlace_def
proof (intro allI impI)
  fix p st bs k cs p' st'
  assume ns: "nodeStack st = bs @ [Elem k cs]"
    and rn: "run p st (xs @ ys) = (p', Inr st')"
  obtain p1 r1 where r1: "run p st xs = (p1, r1)" by (cases "run p st xs")
  with rn obtain st1 where st1: "r1 = Inr st1" by (cases r1) (auto simp: run_append)
  with r1 rn have r2: "run p1 st1 ys = (p', Inr st')" by (simp add: run_append)
  from assms(1) ns r1 st1 obtain cs1 where
    one: "startElementStack st1 = startElementStack st"
      "nodeStack st1 = bs @ [Elem k (cs @ cs1)]"
    unfolding inPlace_def by blast
  from assms(2) one(2) r2 obtain cs2 where
    two: "startElementStack st' = startElementStack st1"
      "nodeStack st' = bs @ [Elem k ((cs @ cs1) @ cs2)]"
    unfolding inPlace_def by blast
  from one two have "nodeStack st' = bs @ [Elem k (cs @ (cs1 @ cs2))]" by simp
  with one two show "startElementStack st' = startElementStack st \<and>
      (\<exists>cs'. nodeStack st' = bs @ [Elem k (cs @ cs')])"
    by (metis (no_types))
qed

lemma inPlace_concat:
  "(\<And>x. x \<in> set xs \<Longrightarrow> inPlace (f x)) \<Longrightarrow> inPlace (concat (map f xs))"
  by (induction xs) (simp_all add: inPlace_Nil inPlace_append)

lemma inPlace_CharData: "inPlace [CharData ele]"
  unfolding inPlace_def
proof (intro allI impI)
  fix p st bs k cs p' st'
  assume ns: "nodeStack st = bs @ [Elem k cs]"
    and rn: "run p st [CharData ele] = (p', Inr st')"
  show "startElementStack st' = startElementStack st \<and>
      (\<exists>cs'. nodeStack st' = bs @ [Elem k (cs @ cs')])"
  proof (cases "TrimSpace ele = []")
    case True
    with rn have "st' = st" by (simp add: charData_def)
    with ns show ?thesis by simp
  next
    case False
    from rn charData_top [OF False ns] obtain dataNode where
      "st' = st\<lparr>nodeStack := bs @ [AddChild (Elem k cs) dataNode]\<rparr>"
      by (auto split: sum.splits)
    then show ?thesis by simp
  qed
qed

lemma inPlace_other:
  "inPlace [Comment ele]" "inPlace [ProcInst target inst]" "inPlace [Directive ele]"
  by (simp_all add: inPlace_def)

lemma element_run:
  assumes "inPlace body"
    and "nodeStack st = bs @ [Elem k cs]"
    and "run p st (StartElement ele # body @ [EndElement (Name ele)]) = (p', Inr st')"
  shows "\<exists>k1 cs1. newNodeByStartElement ele = Elem k1 [] \<and>
           st' = \<lparr>startElementStack = startElementStack st,
                  nodeStack = bs @ [if k1 = EmptyNode then Elem k cs
                                    else Elem k (cs @ [Elem k1 cs1])]\<rparr>"
proof -
  obtain k1 where k1: "newNodeByStartElement ele = Elem k1 []"
    using newNode_Elem by blast
  let ?st1 = "\<lparr>startElementStack = startElementStack st @ [ele],
               nodeStack = (bs @ [Elem k cs]) @ [Elem k1 []]\<rparr>"
  from assms(2,3) k1 have rn: "run p ?st1 (body @ [EndElement (Name ele)]) = (p', Inr st')"
    by simp
  obtain p2 r2 where r2: "run p ?st1 body = (p2, r2)" by (cases "run p ?st1 body")
  with rn obtain st2 where st2: "r2 = Inr st2" by (cases r2) (auto simp: run_append)
  from assms(1) r2 st2 obtain cs1 where
    two: "startElementStack st2 = startElementStack st @ [ele]"
      "nodeStack st2 = (bs @ [Elem k cs]) @ [Elem k1 ([] @ cs1)]"
    unfolding inPlace_def
    by (metis (no_types) Stacks.select_convs(1) Stacks.select_convs(2))
  from two have ns2: "nodeStack st2 = bs @ [Elem k cs, Elem k1 cs1]" by simp
  from two(1) have es2: "startElementStack st2 \<noteq> []"
    and nm: "Local (Name ele) = Local (Name (last (startElementStack st2)))"
    by simp_all
  from r2 st2 rn have "endElement st2 (Name ele) = Inr st'"
    by (auto simp: run_append split: sum.splits)
  with endElement_pop [OF es2 nm ns2] two(1)
  have "st' = \<lparr>startElementStack = startElementStack st,
      nodeStack = (if isEmptyNode (Elem k1 cs1) then bs @ [Elem k cs]
                   else bs @ [AddChild (Elem k cs) (Elem k1 cs1)])\<rparr>"
    by simp
  then have "st' = \<lparr>startElementStack = startElementStack st,
      nodeStack = bs @ [if k1 = EmptyNode then Elem k cs else Elem k (cs @ [Elem k1 cs1])]\<rparr>"
    by (cases k1) simp_all
  with k1 show ?thesis by blast
qed

lemma inPlace_element:
  assumes "inPlace body"
  shows "inPlace (StartElement ele # body @ [EndElement (Name ele)])"
  unfolding inPlace_def
proof (intro allI impI)
  fix p st bs k cs p' st'
  assume ns: "nodeStack st = bs @ [Elem k cs]"
    and rn: "run p st (StartElement ele # body @ [EndElement (Name ele)]) = (p', Inr st')"
  from element_run [OF assms ns rn] obtain k1 cs1 where
    st': "st' = \<lparr>startElementStack = startElementStack st,
                  nodeStack = bs @ [if k1 = EmptyNode then Elem k cs
                                    else Elem k (cs @ [Elem k1 cs1])]\<rparr>"
    by blast
  show "startElementStack st' = startElementStack st \<and>
      (\<exists>cs'. nodeStack st' = bs @ [Elem k (cs @ cs')])"
  proof (cases "k1 = EmptyNode")
    case True
    with st' have "nodeStack st' = bs @ [Elem k (cs @ [])]" by simp
    with st' show ?thesis by (metis (no_types) Stacks.select_convs(1))
  next
    case False
    with st' show ?thesis by simp
  qed
qed

lemma inPlace_tokensOf: "inPlace (tokensOf x)"
proof (induction x)
  case (Element ele body)
  then have "inPlace (concat (map tokensOf body))" by (rule inPlace_concat)
  then show ?case by (simp add: inPlace_element)
qed (simp_all add: inPlace_CharData inPlace_other)

lemma isEmptyNode_Elem: "isEmptyNode (Elem k cs) = (k = EmptyNode)"
  by (cases k) simp_all

lemma endElement_pruned:
  assumes "pruned st" and "balanced st" and "endElement st ele = Inr st'"
  shows "pruned st'"
proof -
  let ?es = "startElementStack st"
  from assms(3) have es: "?es \<noteq> []" and nm: "Local ele = Local (Name (last ?es))"
    by (auto simp: endElement_def Let_def split: if_splits)
  with assms(2) have "2 \<le> length (nodeStack st)"
    by (cases ?es) (auto simp: balanced_def)
  then obtain bs parent popNode where ns: "nodeStack st = bs @ [parent, popNode]"
    by (rule two_top)
  from assms(2) ns have "\<exists>k cs. parent = Elem k cs" and "\<exists>k cs. popNode = Elem k cs"
    by (simp_all add: balanced_def)
  then obtain k cs k1 cs1 where
    shape: "parent = Elem k cs" "popNode = Elem k1 cs1"
    by blast
  from assms(3) endElement_pop [OF es nm ns]
  have st': "nodeStack st' = (if isEmptyNode popNode then bs @ [parent]
                       else bs @ [AddChild parent popNode])" by auto
  from assms(1) ns have keep: "\<forall>n \<in> set (bs @ [parent]). \<forall>c \<in> set (children n). \<not> hasEmptyNode c"
    by (simp add: pruned_def)
  show ?thesis
  proof (cases "isEmptyNode popNode")
    case True
    with st' keep show ?thesis by (simp add: pruned_def)
  next
    case False
    from assms(1) ns shape have "\<forall>c \<in> set cs1. \<not> hasEmptyNode c" by (simp add: pruned_def)
    with False shape have "\<not> hasEmptyNode popNode" by (simp add: isEmptyNode_Elem)
    with False st' keep shape show ?thesis by (auto simp: pruned_def)
  qed
qed

lemma charData_pruned:
  assumes "pruned st" and "balanced st" and "charData st ele = Inr st'"
  shows "pruned st'"
proof (cases "TrimSpace ele = []")
  case True
  with assms show ?thesis by (simp add: charData_def)
next
  case False
  from assms(2) have "nodeStack st \<noteq> []" by (auto simp: balanced_def)
  then obtain bs tp where ns: "nodeStack st = bs @ [tp]" by (metis rev_exhaust)
  from assms(3) charData_top [OF False ns] obtain segs where
    st': "st' = st\<lparr>nodeStack := bs @ [AddChild tp (DataNode (TrimSpace ele) segs)]\<rparr>"
    by (auto split: sum.splits)
  from assms(2) ns obtain k cs where "tp = Elem k cs" by (auto simp: balanced_def)
  with assms(1) ns st' show ?thesis by (auto simp: pruned_def)
qed

lemma step_pruned:
  assumes "pruned st" and "balanced st" and "step p st token = (p', Inr st')"
  shows "pruned st'"
proof (cases token)
  case (StartElement ele)
  obtain k where "newNodeByStartElement ele = Elem k []" using newNode_Elem by blast
  with assms StartElement show ?thesis by (auto simp: pruned_def)
next
  case (EndElement ele)
  with assms show ?thesis by (auto intro: endElement_pruned)
next
  case (CharData ele)
  with assms show ?thesis by (auto intro: charData_pruned)
qed (use assms in auto)

lemma run_pruned:
  "pruned st \<Longrightarrow> balanced st \<Longrightarrow> run p st tokens = (p', Inr st') \<Longrightarrow> pruned st'"
proof (induction tokens arbitrary: p st)
  case Nil
  then show ?case by simp
next
  case (Cons token tokens)
  obtain q r where s: "step p st token = (q, r)" by (cases "step p st token")
  with Cons.prems(3) obtain st1 where r: "r = Inr st1" by (cases r) auto
  with s Cons.prems have "pruned st1" and "balanced st1"
    by (auto intro: step_pruned step_balanced)
  moreover from s r Cons.prems(3) have "run q st1 tokens = (p', Inr st')" by simp
  ultimately show ?case by (rule Cons.IH)
qed

lemma Parse_pruned:
  assumes "snd (Parse p tokens err) = Inr tree"
  shows "\<not> hasEmptyNode tree"
proof -
  obtain q r where rn: "run p initStacks tokens = (q, r)" by (cases "run p initStacks tokens")
  with assms obtain st where st: "r = Inr st" and fin: "atEnd st err = Inr tree"
    by (cases r) (auto simp: Parse_def)
  have "pruned initStacks" by (simp add: pruned_def initStacks_def)
  with rn st have pr: "pruned st" and bal: "balanced st"
    by (auto intro: run_pruned init_balanced reached_balanced)
  from bal obtain cs rest where ns: "nodeStack st = Elem RootNode cs # rest"
    by (cases "nodeStack st") (auto simp: balanced_def)
  with fin have "tree = Elem RootNode cs"
    by (cases err) (auto simp: atEnd_def split: if_splits)
  with pr ns show ?thesis by (simp add: pruned_def)
qed

lemma unknown_EmptyNode:
  "Local (Name ele) \<notin> set dispatchNames \<Longrightarrow> newNodeByStartElement ele = Elem EmptyNode []"
  by (simp add: dispatchNames_def newNodeByStartElement_def Let_def)

text \<open>
  C2. An element whose local name is not in the dispatch table is built as an \<open>Empty\<close>
  node. When a document that contains such an element, well-formed with its content, is
  parsed to a tree, that tree is the one of the document without the element and its
  content, and no \<open>Empty\<close> node occurs anywhere in it.
\<close>

theorem unknown_elements_pruned:
  assumes "Local (Name ele) \<notin> set dispatchNames"
    and "snd (Parse p (before @ tokensOf (Element ele body) @ later) err) = Inr tree"
  shows "newNodeByStartElement ele = Elem EmptyNode [] \<and>
         snd (Parse p (before @ later) err) = Inr tree \<and>
         \<not> hasEmptyNode tree"
proof -
  let ?inner = "concat (map tokensOf body)"
  let ?elem = "StartElement ele # ?inner @ [EndElement (Name ele)]"
  have empty: "newNodeByStartElement ele = Elem EmptyNode []"
    using assms(1) by (rule unknown_EmptyNode)
  have inner: "inPlace ?inner" by (rule inPlace_concat) (rule inPlace_tokensOf)
  obtain q r where rn: "run p initStacks (before @ ?elem @ later) = (q, r)"
    by (cases "run p initStacks (before @ ?elem @ later)")
  with assms(2) obtain stF where r: "r = Inr stF" and fin: "atEnd stF err = Inr tree"
    by (cases r) (auto simp: Parse_def)
  obtain p1 r1 where r1: "run p initStacks before = (p1, r1)"
    by (cases "run p initStacks before")
  with rn r obtain st1 where st1: "r1 = Inr st1"
    by (cases r1) (auto simp: run_append)
  with r1 rn r have rest: "run p1 st1 (?elem @ later) = (q, Inr stF)"
    by (simp add: run_append)
  obtain p2 r2 where r2: "run p1 st1 ?elem = (p2, r2)" by (cases "run p1 st1 ?elem")
  have "run p1 st1 (?elem @ later) =
      (case run p1 st1 ?elem of (p', Inl e) \<Rightarrow> (p', Inl e) | (p', Inr st') \<Rightarrow> run p' st' later)"
    by (rule run_append)
  with rest r2 have cont: "(q, Inr stF) =
      (case r2 of Inl e \<Rightarrow> (p2, Inl e) | Inr st' \<Rightarrow> run p2 st' later)"
    by (simp only: prod.case)
  then obtain st2 where st2: "r2 = Inr st2" by (cases r2) simp_all
  with cont have last: "run p2 st2 later = (q, Inr stF)" by simp
  from r1 st1 have bal: "balanced st1" by (auto intro: reached_balanced)
  then have "nodeStack st1 \<noteq> []" by (auto simp: balanced_def)
  then obtain bs tp where "nodeStack st1 = bs @ [tp]" by (metis rev_exhaust)
  with bal obtain k cs where ns: "nodeStack st1 = bs @ [Elem k cs]"
    by (auto simp: balanced_def)
  from r2 st2 have "run p1 st1 ?elem = (p2, Inr st2)" by simp
  from element_run [OF inner ns this] empty ns have "st2 = st1" by simp
  with last have "snd (run p2 st1 later) = Inr stF" by simp
  then have "snd (run p1 st1 later) = Inr stF" by (simp add: run_stacks [of p1 st1 later p2])
  with r1 st1 have "snd (run p initStacks (before @ later)) = Inr stF"
    by (simp add: run_append)
  with fin have "snd (Parse p (before @ later) err) = Inr tree"
    by (cases "run p initStacks (before @ later)") (simp add: Parse_def)
  with empty Parse_pruned [OF assms(2)] show ?thesis by simp
qed

theorem unknown_elements_pruned_witness:
  "Local (Name (plainElement ''foo'')) \<notin> set dispatchNames \<and>
   snd (Parse NewParser
     ([StartElement (plainElement ''mapper''), CharData ''a''] @
      tokensOf (Element (plainElement ''foo'')
        [Text ''x'', Element (plainElement ''if'') [Text ''y'']]) @
      [EndElement (plainName ''mapper'')]) EOF) =
     Inr (Elem RootNode
       [Elem (MapperNode (plainElement ''mapper'')) [DataNode ''a'' [Literal ''a'']]]) \<and>
   newNodeByStartElement (plainElement ''foo'') = Elem EmptyNode [] \<and>
   snd (Parse NewParser
     ([StartElement (plainElement ''mapper''), CharData ''a''] @
      [EndElement (plainName ''mapper'')]) EOF) =
     Inr (Elem RootNode
       [Elem (MapperNode (plainElement ''mapper'')) [DataNode ''a'' [Literal ''a'']]]) \<and>
   \<not> hasEmptyNode (Elem RootNode
       [Elem (MapperNode (plainElement ''mapper'')) [DataNode ''a'' [Literal ''a'']]])"
proof -
  have h1: "Local (Name (plainElement ''foo'')) \<notin> set dispatchNames"
    by (simp add: dispatchNames_def plainElement_def plainName_def)
  have h2: "snd (Parse NewParser
     ([StartElement (plainElement ''mapper''), CharData ''a''] @
      tokensOf (Element (plainElement ''foo'')
        [Text ''x'', Element (plainElement ''if'') [Text ''y'']]) @
      [EndElement (plainName ''mapper'')]) EOF) =
     Inr (Elem RootNode
       [Elem (MapperNode (plainElement ''mapper'')) [DataNode ''a'' [Literal ''a'']]])"
    by (simp add: eval)
  from unknown_elements_pruned [OF h1 h2] h1 h2 show ?thesis by blast
qed

end
